theory Spec2Isabelle
  imports Complex_Main
begin

section \<open>HierarchyComponent (scenegraph/HierarchyComponent.ts)\<close>

text \<open>
  \<^verbatim>\<open>Entity\<close> is the engine's entity id, a number; the construction data is a
  \<^verbatim>\<open>Partial<...>\<close>, so its \<^verbatim>\<open>parentID\<close> may be absent (\<open>None\<close>).
  The superclass constructor receives the same data; whatever it stores in
  \<^verbatim>\<open>parentID\<close> is overwritten by the assignment of line 9.
\<close>

type_synonym Entity = int

record HierarchyData =
  data_parentID :: "Entity option"

record HierarchyComponent =
  parentID :: Entity

text \<open>JavaScript truthiness of an optional entity id: \<^verbatim>\<open>undefined\<close> and \<^verbatim>\<open>0\<close> are falsy.\<close>

definition truthy :: "Entity option \<Rightarrow> bool" where
  "truthy v = (case v of None \<Rightarrow> False | Some n \<Rightarrow> n \<noteq> 0)"

text \<open>\<^verbatim>\<open>a || b\<close>: the left operand when it is truthy, the right one otherwise.\<close>

definition js_or :: "Entity option \<Rightarrow> Entity \<Rightarrow> Entity" where
  "js_or a b = (case a of None \<Rightarrow> b | Some n \<Rightarrow> if truthy a then n else b)"

definition new_HierarchyComponent :: "HierarchyData \<Rightarrow> HierarchyComponent" where
  "new_HierarchyComponent d = \<lparr>parentID = js_or (data_parentID d) (- 1)\<rparr>"


section \<open>buildTextureData (the Fruchterman example driver)\<close>

text \<open>
  The driver's nodes carry a position and an id, its edges name two ids. Ids are
  property keys of \<^verbatim>\<open>mapIdPos\<close>, hence strings. A JavaScript number that is a
  count or an offset \<open>k\<close> is written \<open>real k\<close>.
\<close>

record node =
  node_x :: real
  node_y :: real
  node_id :: string

record edge =
  source :: string
  target :: string

text \<open>The two module-level variables the function writes.\<close>

record globals =
  lineIndexBufferData :: "nat list"
  maxEdgePerVetex :: "nat option"

datatype js_error = TypeError

text \<open>
  \<^verbatim>\<open>mapIdPos[k] = v\<close> on a plain object creates an own property, except for the key
  \<^verbatim>\<open>__proto__\<close>, whose setter ignores a number. A read of a key that is not an own
  property yields \<^verbatim>\<open>undefined\<close> or an inherited object, never a position; the map
  is \<open>None\<close> there.
\<close>

definition set_prop :: "(string \<rightharpoonup> nat) \<Rightarrow> string \<Rightarrow> nat \<Rightarrow> (string \<rightharpoonup> nat)" where
  "set_prop m k v = (if k = ''__proto__'' then m else m(k \<mapsto> v))"

text \<open>First loop (lines 385--393): four slots and an empty adjacency list per node.\<close>

fun fill_nodes ::
  "node list \<Rightarrow> nat \<Rightarrow> real list \<times> nat list list \<times> (string \<rightharpoonup> nat)
    \<Rightarrow> real list \<times> nat list list \<times> (string \<rightharpoonup> nat)" where
  "fill_nodes [] i st = st"
| "fill_nodes (n # ns) i (dataArray, nodeDict, mapIdPos) =
     fill_nodes ns (Suc i)
       (dataArray @ [node_x n, node_y n, 0, 0], nodeDict @ [[]], set_prop mapIdPos (node_id n) i)"

text \<open>
  Second loop (lines 394--399). \<^verbatim>\<open>nodeDict[mapIdPos[e.source]]\<close> is
  \<^verbatim>\<open>undefined\<close> when the id is no own key (or the position is out of range), and
  \<^verbatim>\<open>.push\<close> on it throws. When only the target is unknown, line 396 still pushes
  before line 397 throws; the function is left by the exception either way. The pushes onto
  \<^verbatim>\<open>lineIndexBufferData\<close> made for the earlier edges stay.
\<close>

fun link_edges ::
  "edge list \<Rightarrow> (string \<rightharpoonup> nat) \<Rightarrow> nat list list \<Rightarrow> nat list
    \<Rightarrow> nat list \<times> (js_error + nat list list)" where
  "link_edges [] mapIdPos nodeDict lineIdx = (lineIdx, Inr nodeDict)"
| "link_edges (e # es) mapIdPos nodeDict lineIdx =
     (case (mapIdPos (source e), mapIdPos (target e)) of
        (Some s, Some t) \<Rightarrow>
          if s < length nodeDict \<and> t < length nodeDict then
            let nodeDict = nodeDict[s := nodeDict ! s @ [t]];
                nodeDict = nodeDict[t := nodeDict ! t @ [s]]
            in link_edges es mapIdPos nodeDict (lineIdx @ [s, t])
          else (lineIdx, Inl TypeError)
      | _ \<Rightarrow> (lineIdx, Inl TypeError))"

text \<open>
  Third loop (lines 402--413), the round for node \<open>i\<close>. Both indexed writes hit slots
  that the first loop pushed (\<open>i * 4 + 3 < 4 * length nodes\<close>), so they are list updates;
  the inner loop pushes every element of \<^verbatim>\<open>dests\<close>.
\<close>

definition adj_step :: "nat list list \<Rightarrow> nat \<Rightarrow> real list \<times> nat \<Rightarrow> real list \<times> nat" where
  "adj_step nodeDict i = (\<lambda>(dataArray, mx).
     let offset = length dataArray;
         dests = nodeDict ! i;
         dataArray = dataArray[i * 4 + 2 := real offset];
         dataArray = dataArray[i * 4 + 3 := real (length dests)];
         mx = max mx (length dests)
     in (dataArray @ map real dests, mx))"

text \<open>The padding loop (lines 415--417).\<close>

function pad4 :: "real list \<Rightarrow> real list" where
  "pad4 dataArray = (if length dataArray mod 4 \<noteq> 0 then pad4 (dataArray @ [0]) else dataArray)"
  by pat_completeness auto
termination
  by (relation "measure (\<lambda>xs. 3 - (length xs + 3) mod 4)") (auto, presburger)

declare pad4.simps [simp del]

text \<open>
  The whole function. \<open>f32\<close> is the rounding to the nearest 32-bit float that
  \<^verbatim>\<open>new Float32Array(dataArray)\<close> applies to every element; it is a parameter of the
  model. The result pairs what the call returns (or throws) with the module-level variables
  after it.
\<close>

definition buildTextureData ::
  "(real \<Rightarrow> real) \<Rightarrow> node list \<Rightarrow> edge list \<Rightarrow> globals \<Rightarrow> (js_error + real list) \<times> globals" where
  "buildTextureData f32 nodes edges g =
     (case fill_nodes nodes 0 ([], [], Map.empty) of
        (dataArray, nodeDict, mapIdPos) \<Rightarrow>
          (case link_edges edges mapIdPos nodeDict (lineIndexBufferData g) of
             (lineIdx, Inl err) \<Rightarrow> (Inl err, g\<lparr>lineIndexBufferData := lineIdx\<rparr>)
           | (lineIdx, Inr nodeDict) \<Rightarrow>
               (case fold (adj_step nodeDict) [0..<length nodes] (dataArray, 0) of
                  (dataArray, mx) \<Rightarrow>
                    (Inr (map f32 (pad4 dataArray)),
                     g\<lparr>lineIndexBufferData := lineIdx, maxEdgePerVetex := Some mx\<rparr>))))"

subsection \<open>What the layout is compared with\<close>

text \<open>
  An edge endpoint \<open>s\<close> denotes node \<open>i\<close> when \<open>i\<close> is the last node whose id is \<open>s\<close>.
  With pairwise distinct ids this is: node \<open>i\<close> has id \<open>s\<close>.
\<close>

definition denotes :: "node list \<Rightarrow> string \<Rightarrow> nat \<Rightarrow> bool" where
  "denotes nodes s i =
     (i < length nodes \<and> node_id (nodes ! i) = s \<and> s \<notin> set (map node_id (drop (Suc i) nodes)))"

text \<open>The positions an id denotes: one, or none for an unknown id.\<close>

definition positions :: "node list \<Rightarrow> string \<Rightarrow> nat list" where
  "positions nodes s = filter (denotes nodes s) [0..<length nodes]"

text \<open>Edge endpoints that denote node \<open>i\<close>, an edge counted once for each endpoint.\<close>

definition incidence :: "node list \<Rightarrow> edge list \<Rightarrow> nat \<Rightarrow> nat" where
  "incidence nodes edges i =
     length (filter (\<lambda>e. denotes nodes (source e) i) edges) +
     length (filter (\<lambda>e. denotes nodes (target e) i) edges)"

text \<open>Edge endpoints that carry the id of node \<open>i\<close>: incidence read off the ids alone.\<close>

definition incident_endpoints :: "node list \<Rightarrow> edge list \<Rightarrow> nat \<Rightarrow> nat" where
  "incident_endpoints nodes edges i =
     length (filter (\<lambda>e. source e = node_id (nodes ! i)) edges) +
     length (filter (\<lambda>e. target e = node_id (nodes ! i)) edges)"

text \<open>The adjacency list of node \<open>i\<close>: the other end of each of its edges, in edge order.\<close>

definition neighbours :: "node list \<Rightarrow> edge list \<Rightarrow> nat \<Rightarrow> nat list" where
  "neighbours nodes edges i =
     concat (map (\<lambda>e. (if denotes nodes (source e) i then positions nodes (target e) else []) @
                      (if denotes nodes (target e) i then positions nodes (source e) else [])) edges)"

text \<open>Where the adjacency list of node \<open>i\<close> starts: after the node slots and the earlier lists.\<close>

definition adj_offset :: "node list \<Rightarrow> edge list \<Rightarrow> nat \<Rightarrow> nat" where
  "adj_offset nodes edges i = 4 * length nodes + sum_list (map (incidence nodes edges) [0..<i])"

text \<open>Auxiliary notions of the proofs: own keys, adjacency under a position map, offsets.\<close>

definition own_key :: "string \<Rightarrow> bool" where
  "own_key s = (s \<noteq> ''__proto__'')"

definition adj :: "(string \<rightharpoonup> nat) \<Rightarrow> edge list \<Rightarrow> nat \<Rightarrow> nat list" where
  "adj m es i =
     concat (map (\<lambda>e. (if m (source e) = Some i then [the (m (target e))] else []) @
                      (if m (target e) = Some i then [the (m (source e))] else [])) es)"

definition offs :: "nat list list \<Rightarrow> nat \<Rightarrow> nat \<Rightarrow> nat" where
  "offs nd base j = base + sum_list (map length (take j nd))"

text \<open>Sample inputs.\<close>

definition example_nodes :: "node list" where
  "example_nodes =
     [\<lparr>node_x = 0, node_y = 0, node_id = ''a''\<rparr>, \<lparr>node_x = 1, node_y = 0, node_id = ''b''\<rparr>]"

definition example_edges :: "edge list" where
  "example_edges = [\<lparr>source = ''a'', target = ''b''\<rparr>]"

definition twin_nodes :: "node list" where
  "twin_nodes =
     [\<lparr>node_x = 0, node_y = 0, node_id = ''a''\<rparr>, \<lparr>node_x = 1, node_y = 0, node_id = ''a''\<rparr>,
      \<lparr>node_x = 2, node_y = 0, node_id = ''b''\<rparr>]"

definition fresh_globals :: globals where
  "fresh_globals = \<lparr>lineIndexBufferData = [], maxEdgePerVetex = None\<rparr>"


section \<open>The compute scheduler\<close>

text \<open>
  The example driver calls \<^verbatim>\<open>world.createComputePipeline\<close> and
  \<^verbatim>\<open>world.setBinding\<close>; the pipeline behind them (binding resolver, dispatch loop,
  completion handoff) is described in sections 3, 4.4, 4.5 and 6 of the specification, and
  the definitions of this section follow that description. Buffers are modelled by their
  contents (lists of numbers over \<open>real\<close>), not by handles.
\<close>

subsection \<open>Data model (specification, section 3)\<close>

datatype direction = In | Out | InOut
datatype binding_kind = Uniform | ArrayBuffer
datatype element_type = FloatT | IntT | Vec2T | Vec3T | Vec4T
datatype target_dialect = GLSL100 | GLSL450 | WGSL

record Binding =
  name :: string
  direction :: direction
  elementType :: element_type
  kind :: binding_kind
  isCompileTimeConstant :: bool

text \<open>The helper functions of a \<^verbatim>\<open>ShaderContext\<close> are syntax and play no part in a run.\<close>

record ShaderContext =
  entryPoint :: string
  workgroupSize :: "nat \<times> nat \<times> nat"
  bindings :: "Binding list"
  targetDialect :: target_dialect

text \<open>
  Section 4.5 speaks of a run with no \<^verbatim>\<open>maxIterations\<close> bound set, so the bound is
  optional here.
\<close>

record DispatchDescriptor =
  counts :: "nat \<times> nat \<times> nat"
  maxIterations :: "nat option"

datatype host_value = Scalar real | Numbers "real list"

type_synonym BindingTable = "string \<rightharpoonup> host_value"

datatype BindingError = MissingBinding string | ShapeMismatch string | UnresolvedConstant string
datatype BackendError = BackendError string
datatype SchedulerError = NoTerminationCondition
datatype run_error =
  BindingFailure BindingError | BackendFailure BackendError | SchedulerFailure SchedulerError

datatype scheduler_state =
  Idle | Compiling | Ready | Running | Completed | Failed run_error | Cancelled

datatype buffer_set = Front | Back

text \<open>
  What a resolved binding holds: a uniform value, a buffer the kernel only reads, a buffer
  it only writes, or the front and back buffers of a read-write binding.
\<close>

datatype slot =
  UniformSlot host_value | ReadBuffer "real list" | WriteBuffer "real list"
  | PingPong "real list" "real list"

text \<open>
  Modelled from the spec: the rendering backend (section 6), which is no part of the
  sources. \<open>compileProgram\<close> yields an error or nothing; \<open>dispatch\<close> receives the number
  of the dispatch, the workgroup size, the dispatch counts and the readable contents of the
  bindings, and yields an error or the contents it wrote, by binding name.
\<close>

record Backend =
  compileProgram :: "ShaderContext \<Rightarrow> BackendError option"
  dispatch :: "nat \<Rightarrow> nat \<times> nat \<times> nat \<Rightarrow> nat \<times> nat \<times> nat \<Rightarrow> (string \<rightharpoonup> host_value)
                 \<Rightarrow> BackendError + (string \<rightharpoonup> real list)"

text \<open>
  What a run leaves behind, in order: the states it enters, the dispatch calls it issues to
  the backend, and the invocations of the completion handoff (\<^verbatim>\<open>onCompleted\<close>) with
  the buffers they receive.
\<close>

datatype event = Enter scheduler_state | Dispatch nat | Handoff "(string \<times> real list) list"

type_synonym predicate = "nat \<Rightarrow> (string \<rightharpoonup> host_value) \<Rightarrow> bool"

subsection \<open>Binding resolver (specification, section 4.4)\<close>

text \<open>
  Modelled from the spec: the shape check of section 4.4, which is no part of the sources.
  An element type has a number of components; a uniform holds one element, an array buffer
  a whole number of elements.
\<close>

fun width :: "element_type \<Rightarrow> nat" where
  "width FloatT = 1"
| "width IntT = 1"
| "width Vec2T = 2"
| "width Vec3T = 3"
| "width Vec4T = 4"

fun shape_ok :: "Binding \<Rightarrow> host_value \<Rightarrow> bool" where
  "shape_ok b (Scalar x) = (kind b = Uniform \<and> width (elementType b) = 1)"
| "shape_ok b (Numbers xs) =
     (case kind b of
        Uniform \<Rightarrow> length xs = width (elementType b)
      | ArrayBuffer \<Rightarrow> length xs mod width (elementType b) = 0)"

text \<open>
  Modelled from the spec: a host value as the contents of a buffer, and whether it is a
  scalar (the value a compile-time constant needs).
\<close>

fun numbers :: "host_value \<Rightarrow> real list" where
  "numbers (Scalar x) = [x]"
| "numbers (Numbers xs) = xs"

fun is_scalar :: "host_value \<Rightarrow> bool" where
  "is_scalar (Scalar x) = True"
| "is_scalar (Numbers xs) = False"

text \<open>Modelled from the spec: the dispatch extent, the number of invocations requested.\<close>

fun extent :: "nat \<times> nat \<times> nat \<Rightarrow> nat" where
  "extent (x, y, z) = x * y * z"

text \<open>
  Modelled from the spec: the resolver of section 4.4, for one binding. A binding without an
  entry is allocated zero-initialised from the dispatch extent when its direction is
  \<open>Out\<close> and is an error otherwise; a supplied value is checked against the element type;
  a compile-time constant needs a scalar; a read-write array buffer gets two buffers of the
  same size, the supplied value seeding the front one.
\<close>

definition resolve_binding :: "BindingTable \<Rightarrow> DispatchDescriptor \<Rightarrow> Binding \<Rightarrow> BindingError + slot" where
  "resolve_binding table desc b =
     (case table (name b) of
        None \<Rightarrow>
          if direction b = Out
          then Inr (WriteBuffer (replicate (extent (counts desc) * width (elementType b)) 0))
          else if isCompileTimeConstant b then Inl (UnresolvedConstant (name b))
          else Inl (MissingBinding (name b))
      | Some v \<Rightarrow>
          if \<not> shape_ok b v then Inl (ShapeMismatch (name b))
          else if isCompileTimeConstant b \<and> \<not> is_scalar v then Inl (UnresolvedConstant (name b))
          else (case kind b of
                  Uniform \<Rightarrow> Inr (UniformSlot v)
                | ArrayBuffer \<Rightarrow>
                    (case direction b of
                       In \<Rightarrow> Inr (ReadBuffer (numbers v))
                     | Out \<Rightarrow> Inr (WriteBuffer (numbers v))
                     | InOut \<Rightarrow> Inr (PingPong (numbers v) (replicate (length (numbers v)) 0)))))"

text \<open>Modelled from the spec: the bindings of the context are resolved in their order.\<close>

fun resolve_all ::
  "BindingTable \<Rightarrow> DispatchDescriptor \<Rightarrow> Binding list \<Rightarrow> BindingError + (string \<times> slot) list" where
  "resolve_all table desc [] = Inr []"
| "resolve_all table desc (b # bs) =
     (case resolve_binding table desc b of
        Inl err \<Rightarrow> Inl err
      | Inr s \<Rightarrow>
          (case resolve_all table desc bs of
             Inl err \<Rightarrow> Inl err
           | Inr ss \<Rightarrow> Inr ((name b, s) # ss)))"

text \<open>Modelled from the spec: \<^verbatim>\<open>resolve(table, ctx)\<close>, given the dispatch descriptor for the extent.\<close>

definition resolve ::
  "BindingTable \<Rightarrow> ShaderContext \<Rightarrow> DispatchDescriptor \<Rightarrow> BindingError + (string \<times> slot) list" where
  "resolve table ctx desc = resolve_all table desc (bindings ctx)"

subsection \<open>Dispatch loop and run (specification, section 4.5)\<close>

text \<open>
  Modelled from the spec: what a dispatch can read. A read-write binding shows its
  currently active buffer; a write-only buffer is not readable.
\<close>

fun readable :: "buffer_set \<Rightarrow> slot \<Rightarrow> host_value option" where
  "readable a (UniformSlot v) = Some v"
| "readable a (ReadBuffer b) = Some (Numbers b)"
| "readable a (WriteBuffer b) = None"
| "readable a (PingPong front back) = Some (Numbers (if a = Front then front else back))"

definition view :: "buffer_set \<Rightarrow> (string \<times> slot) list \<Rightarrow> (string \<rightharpoonup> host_value)" where
  "view a slots n = (case map_of slots n of None \<Rightarrow> None | Some s \<Rightarrow> readable a s)"

text \<open>
  Modelled from the spec: where a dispatch writes. A read-write binding receives the
  written contents in its currently inactive buffer.
\<close>

fun write_slot :: "buffer_set \<Rightarrow> (string \<rightharpoonup> real list) \<Rightarrow> string \<times> slot \<Rightarrow> string \<times> slot" where
  "write_slot a written (n, WriteBuffer b) =
     (n, case written n of None \<Rightarrow> WriteBuffer b | Some w \<Rightarrow> WriteBuffer w)"
| "write_slot a written (n, PingPong front back) =
     (n, case written n of
           None \<Rightarrow> PingPong front back
         | Some w \<Rightarrow> if a = Front then PingPong front w else PingPong w back)"
| "write_slot a written (n, s) = (n, s)"

text \<open>Modelled from the spec: the swap of the active and the inactive buffer set.\<close>

fun swap :: "buffer_set \<Rightarrow> buffer_set" where
  "swap Front = Back"
| "swap Back = Front"

text \<open>
  Modelled from the spec: the read-back on completion, the currently active buffer of
  every \<open>Out\<close> and \<open>InOut\<close> binding.
\<close>

fun readback_slot :: "buffer_set \<Rightarrow> string \<times> slot \<Rightarrow> (string \<times> real list) list" where
  "readback_slot a (n, WriteBuffer b) = [(n, b)]"
| "readback_slot a (n, PingPong front back) = [(n, if a = Front then front else back)]"
| "readback_slot a (n, s) = []"

definition readback :: "buffer_set \<Rightarrow> (string \<times> slot) list \<Rightarrow> (string \<times> real list) list" where
  "readback a slots = concat (map (readback_slot a) slots)"

text \<open>
  Modelled from the spec: the dispatch loop of section 4.5, which is no part of the sources.
  It ends when \<open>currentIteration\<close> reaches \<open>maxIterations\<close>; otherwise it issues one
  dispatch. A backend error aborts the loop at once and nothing is handed off. After a
  successful dispatch the buffers are swapped; a cancellation requested meanwhile
  (\<open>cancel currentIteration\<close>) ends the run in \<open>Cancelled\<close> with no handoff; else the
  per-iteration predicate, if there is one, may report completion. With a predicate and no
  bound the loop may run forever, which is the value \<open>None\<close>.
\<close>

partial_function (option) dispatch_loop ::
  "Backend \<Rightarrow> ShaderContext \<Rightarrow> DispatchDescriptor \<Rightarrow> predicate option \<Rightarrow> (nat \<Rightarrow> bool)
    \<Rightarrow> nat \<Rightarrow> buffer_set \<Rightarrow> (string \<times> slot) list \<Rightarrow> event list \<Rightarrow> event list option" where
  "dispatch_loop be ctx desc pred cancel currentIteration activeBufferSet slots events =
     (if maxIterations desc = Some currentIteration
      then Some (events @ [Enter Completed, Handoff (readback activeBufferSet slots)])
      else
        (case dispatch be currentIteration (workgroupSize ctx) (counts desc)
                (view activeBufferSet slots) of
           Inl err \<Rightarrow> Some (events @ [Dispatch currentIteration, Enter (Failed (BackendFailure err))])
         | Inr written \<Rightarrow>
             let slots = map (write_slot activeBufferSet written) slots;
                 activeBufferSet = swap activeBufferSet;
                 events = events @ [Dispatch currentIteration]
             in if cancel currentIteration then Some (events @ [Enter Cancelled])
                else if (case pred of None \<Rightarrow> False
                         | Some p \<Rightarrow> p (Suc currentIteration) (view activeBufferSet slots))
                then Some (events @ [Enter Completed, Handoff (readback activeBufferSet slots)])
                else dispatch_loop be ctx desc pred cancel (Suc currentIteration) activeBufferSet
                       slots events))"

declare dispatch_loop.simps [code]

text \<open>
  Modelled from the spec: \<^verbatim>\<open>run\<close> of sections 4.5 and 6, for a kernel that is already
  analysed. Of the compile step the backend's program creation is modelled. The bindings are
  resolved before \<open>Ready\<close>; a run with neither bound nor predicate is rejected at \<open>Ready\<close>.
\<close>

definition run ::
  "Backend \<Rightarrow> ShaderContext \<Rightarrow> DispatchDescriptor \<Rightarrow> BindingTable \<Rightarrow> predicate option \<Rightarrow> (nat \<Rightarrow> bool)
    \<Rightarrow> event list option" where
  "run be ctx desc table pred cancel =
     (case compileProgram be ctx of
        Some err \<Rightarrow> Some [Enter Idle, Enter Compiling, Enter (Failed (BackendFailure err))]
      | None \<Rightarrow>
          (case resolve table ctx desc of
             Inl err \<Rightarrow> Some [Enter Idle, Enter Compiling, Enter (Failed (BindingFailure err))]
           | Inr slots \<Rightarrow>
               if maxIterations desc = None \<and> pred = None
               then Some [Enter Idle, Enter Compiling, Enter Ready,
                          Enter (Failed (SchedulerFailure NoTerminationCondition))]
               else dispatch_loop be ctx desc pred cancel 0 Front slots
                      [Enter Idle, Enter Compiling, Enter Ready, Enter Running]))"

subsection \<open>Reading a run\<close>

fun states :: "event list \<Rightarrow> scheduler_state list" where
  "states [] = []"
| "states (Enter s # es) = s # states es"
| "states (e # es) = states es"

fun dispatches :: "event list \<Rightarrow> nat list" where
  "dispatches [] = []"
| "dispatches (Dispatch i # es) = i # dispatches es"
| "dispatches (e # es) = dispatches es"

fun handoffs :: "event list \<Rightarrow> (string \<times> real list) list list" where
  "handoffs [] = []"
| "handoffs (Handoff snap # es) = snap # handoffs es"
| "handoffs (e # es) = handoffs es"

text \<open>The state a run is in at its end: the last one entered.\<close>

definition final_state :: "event list \<Rightarrow> scheduler_state" where
  "final_state es = (case rev (states es) of [] \<Rightarrow> Idle | s # _ \<Rightarrow> s)"

text \<open>The three ways the dispatch loop ends.\<close>

fun loop_exit :: "event list \<Rightarrow> bool" where
  "loop_exit [Enter Completed, Handoff snap] = True"
| "loop_exit [Enter (Failed (BackendFailure err))] = True"
| "loop_exit [Enter Cancelled] = True"
| "loop_exit es = False"

subsection \<open>A sample pipeline\<close>

text \<open>
  One read-write \<^verbatim>\<open>vec4\<close> array \<^verbatim>\<open>u_Data\<close>, as in the example kernel, and a
  backend whose kernel adds one to the first component of every element.
\<close>

fun bump :: "real list \<Rightarrow> real list" where
  "bump (a # b # c # d # rest) = (a + 1) # b # c # d # bump rest"
| "bump xs = xs"

definition example_ctx :: ShaderContext where
  "example_ctx =
     \<lparr>entryPoint = ''compute'', workgroupSize = (1, 1, 1),
      bindings = [\<lparr>name = ''u_Data'', direction = InOut, elementType = Vec4T, kind = ArrayBuffer,
                   isCompileTimeConstant = False\<rparr>],
      targetDialect = WGSL\<rparr>"

definition example_desc :: "nat \<Rightarrow> DispatchDescriptor" where
  "example_desc M = \<lparr>counts = (2, 1, 1), maxIterations = Some M\<rparr>"

definition example_table :: BindingTable where
  "example_table = [''u_Data'' \<mapsto> Numbers [0, 0, 8, 1, 1, 1, 9, 1]]"

definition example_backend :: Backend where
  "example_backend =
     \<lparr>compileProgram = (\<lambda>ctx. None),
      dispatch = (\<lambda>i wg cnt v.
        Inr (case v ''u_Data'' of Some (Numbers xs) \<Rightarrow> [''u_Data'' \<mapsto> bump xs] | _ \<Rightarrow> Map.empty))\<rparr>"

definition failing_backend :: Backend where
  "failing_backend =
     \<lparr>compileProgram = (\<lambda>ctx. None),
      dispatch = (\<lambda>i wg cnt v. Inl (BackendError ''device lost''))\<rparr>"

definition never :: "nat \<Rightarrow> bool" where
  "never i = False"


subsection \<open>The iterations of a run\<close>

text \<open>The events every run that reaches \<open>Running\<close> starts with.\<close>

definition started :: "event list" where
  "started = [Enter Idle, Enter Compiling, Enter Ready, Enter Running]"

text \<open>
  The buffers as iteration \<open>k\<close> of a run finds them: those the resolver made, after the
  dispatches \<open>0, \<dots>, k - 1\<close> have written and the buffer sets have been swapped \<open>k\<close> times.
  (A failed dispatch writes nothing; the run ends there.)
\<close>

fun state_after ::
  "Backend \<Rightarrow> ShaderContext \<Rightarrow> DispatchDescriptor \<Rightarrow> (string \<times> slot) list \<Rightarrow> nat
    \<Rightarrow> buffer_set \<times> (string \<times> slot) list" where
  "state_after be ctx desc slots 0 = (Front, slots)"
| "state_after be ctx desc slots (Suc k) =
     (case state_after be ctx desc slots k of
        (a, sl) \<Rightarrow>
          (case dispatch be k (workgroupSize ctx) (counts desc) (view a sl) of
             Inl err \<Rightarrow> (a, sl)
           | Inr written \<Rightarrow> (swap a, map (write_slot a written) sl)))"

text \<open>What dispatch \<open>k\<close> of the run can read, and what a read-back before it would deliver.\<close>

definition view_after ::
  "Backend \<Rightarrow> ShaderContext \<Rightarrow> DispatchDescriptor \<Rightarrow> (string \<times> slot) list \<Rightarrow> nat
    \<Rightarrow> (string \<rightharpoonup> host_value)" where
  "view_after be ctx desc slots k = (case state_after be ctx desc slots k of (a, sl) \<Rightarrow> view a sl)"

definition readback_after ::
  "Backend \<Rightarrow> ShaderContext \<Rightarrow> DispatchDescriptor \<Rightarrow> (string \<times> slot) list \<Rightarrow> nat
    \<Rightarrow> (string \<times> real list) list" where
  "readback_after be ctx desc slots k =
     (case state_after be ctx desc slots k of (a, sl) \<Rightarrow> readback a sl)"

text \<open>What the backend answers to dispatch \<open>k\<close> of the run, and whether that is a success.\<close>

definition dispatch_result ::
  "Backend \<Rightarrow> ShaderContext \<Rightarrow> DispatchDescriptor \<Rightarrow> (string \<times> slot) list \<Rightarrow> nat
    \<Rightarrow> BackendError + (string \<rightharpoonup> real list)" where
  "dispatch_result be ctx desc slots k =
     dispatch be k (workgroupSize ctx) (counts desc) (view_after be ctx desc slots k)"

definition succeeds ::
  "Backend \<Rightarrow> ShaderContext \<Rightarrow> DispatchDescriptor \<Rightarrow> (string \<times> slot) list \<Rightarrow> nat \<Rightarrow> bool" where
  "succeeds be ctx desc slots k =
     (case dispatch_result be ctx desc slots k of Inl err \<Rightarrow> False | Inr written \<Rightarrow> True)"

text \<open>Whether the per-iteration predicate, if there is one, reports completion.\<close>

definition reports :: "predicate option \<Rightarrow> nat \<Rightarrow> (string \<rightharpoonup> host_value) \<Rightarrow> bool" where
  "reports pred i v = (case pred of None \<Rightarrow> False | Some p \<Rightarrow> p i v)"

text \<open>
  Iteration \<open>k\<close> is not the last one: the bound is not reached, the dispatch succeeds, no
  cancellation is requested and the predicate does not report completion.
\<close>

definition continues ::
  "Backend \<Rightarrow> ShaderContext \<Rightarrow> DispatchDescriptor \<Rightarrow> predicate option \<Rightarrow> (nat \<Rightarrow> bool)
    \<Rightarrow> (string \<times> slot) list \<Rightarrow> nat \<Rightarrow> bool" where
  "continues be ctx desc pred cancel slots k =
     (maxIterations desc \<noteq> Some k \<and> succeeds be ctx desc slots k \<and> \<not> cancel k \<and>
      \<not> reports pred (Suc k) (view_after be ctx desc slots (Suc k)))"

subsection \<open>The scenario kernel\<close>













section \<open>Properties of HierarchyComponent\<close>

text \<open>
  C8. The constructor sets \<open>parentID\<close> to the supplied value when that value is truthy and
  to \<open>-1\<close> otherwise. A value is truthy exactly when it is present and not \<open>0\<close>, so a
  supplied \<open>parentID\<close> of \<open>0\<close> is replaced by \<open>-1\<close>, and the component is the one built
  from data without a \<open>parentID\<close>.
\<close>

theorem HierarchyComponent_parentID:
  "parentID (new_HierarchyComponent d) =
     (if truthy (data_parentID d) then the (data_parentID d) else - 1) \<and>
   (truthy (data_parentID d) \<longleftrightarrow> (\<exists>n. data_parentID d = Some n \<and> n \<noteq> 0)) \<and>
   parentID (new_HierarchyComponent \<lparr>data_parentID = Some 0\<rparr>) = - 1 \<and>
   new_HierarchyComponent \<lparr>data_parentID = Some 0\<rparr> = new_HierarchyComponent \<lparr>data_parentID = None\<rparr>"
  by (cases "data_parentID d") (simp_all add: new_HierarchyComponent_def js_or_def truthy_def)

theorem HierarchyComponent_parentID_witness:
  "parentID (new_HierarchyComponent \<lparr>data_parentID = Some 5\<rparr>) = 5 \<and>
   parentID (new_HierarchyComponent \<lparr>data_parentID = Some 0\<rparr>) = - 1 \<and>
   parentID (new_HierarchyComponent \<lparr>data_parentID = None\<rparr>) = - 1"
  using HierarchyComponent_parentID [of "\<lparr>data_parentID = Some 5\<rparr>"]
    HierarchyComponent_parentID [of "\<lparr>data_parentID = None\<rparr>"]
  by (simp add: truthy_def)


section \<open>Properties of buildTextureData\<close>

subsection \<open>The padding loop\<close>

lemma length_pad4: "length (pad4 xs) mod 4 = 0"
proof (induction xs rule: pad4.induct)
  case (1 dataArray)
  show ?case
  proof (cases "length dataArray mod 4 = 0")
    case True
    then show ?thesis by (subst pad4.simps) simp
  next
    case False
    with 1 show ?thesis by (subst pad4.simps) simp
  qed
qed

lemma pad4_append: "\<exists>k. pad4 xs = xs @ replicate k 0"
proof (induction xs rule: pad4.induct)
  case (1 dataArray)
  show ?case
  proof (cases "length dataArray mod 4 = 0")
    case True
    then have "pad4 dataArray = dataArray @ replicate 0 0" by (subst pad4.simps) simp
    then show ?thesis by blast
  next
    case False
    with 1 obtain k where "pad4 (dataArray @ [0]) = (dataArray @ [0]) @ replicate k 0" by blast
    with False have "pad4 dataArray = dataArray @ replicate (Suc k) 0"
      by (subst pad4.simps) simp
    then show ?thesis by blast
  qed
qed


subsection \<open>The node loop\<close>

lemma fill_nodes_shape:
  "fill_nodes ns i (d, nd, m) = (d', nd', m') \<Longrightarrow>
     length d' = length d + 4 * length ns \<and> nd' = nd @ replicate (length ns) []"
proof (induction ns arbitrary: i d nd m)
  case Nil then show ?case by simp
next
  case (Cons n ns)
  from Cons.prems Cons.IH[of "Suc i" "d @ [node_x n, node_y n, 0, 0]" "nd @ [[]]" "set_prop m (node_id n) i"]
  show ?case by (simp add: replicate_app_Cons_same)
qed

lemma fill_nodes_map:
  "fill_nodes ns i (d, nd, m) = (d', nd', m') \<Longrightarrow>
     m' s = Some k \<longleftrightarrow>
       (\<exists>j<length ns. k = i + j \<and> node_id (ns ! j) = s \<and> s \<notin> set (map node_id (drop (Suc j) ns)) \<and> own_key s)
       \<or> ((s \<notin> set (map node_id ns) \<or> \<not> own_key s) \<and> m s = Some k)"
proof (induction ns arbitrary: i d nd m)
  case Nil then show ?case by simp
next
  case (Cons n ns)
  let ?m = "set_prop m (node_id n) i"
  from Cons.prems have "fill_nodes ns (Suc i) (d @ [node_x n, node_y n, 0, 0], nd @ [[]], ?m) = (d', nd', m')"
    by simp
  note IH = Cons.IH[OF this]
  show ?case
  proof (cases "s \<in> set (map node_id ns) \<and> own_key s")
    case True
    then have a: "m' s = Some k \<longleftrightarrow> (\<exists>j<length ns. k = Suc i + j \<and> node_id (ns ! j) = s \<and> s \<notin> set (map node_id (drop (Suc j) ns)) \<and> own_key s)"
      using IH by blast
    have "(\<exists>j<length ns. k = Suc i + j \<and> node_id (ns ! j) = s \<and> s \<notin> set (map node_id (drop (Suc j) ns)) \<and> own_key s)
       \<longleftrightarrow> (\<exists>j<length (n # ns). k = i + j \<and> node_id ((n # ns) ! j) = s \<and> s \<notin> set (map node_id (drop (Suc j) (n # ns))) \<and> own_key s)"
      (is "?L \<longleftrightarrow> ?R")
    proof
      assume ?L
      then obtain j where "j<length ns" "k = Suc i + j" "node_id (ns ! j) = s" "s \<notin> set (map node_id (drop (Suc j) ns))" "own_key s" by blast
      then show ?R by (intro exI[of _ "Suc j"]) simp
    next
      assume ?R
      then obtain j where j: "j<length (n # ns)" "k = i + j" "node_id ((n # ns) ! j) = s" "s \<notin> set (map node_id (drop (Suc j) (n # ns)))" "own_key s" by blast
      show ?L
      proof (cases j)
        case 0
        with j True show ?thesis by simp
      next
        case (Suc j')
        with j show ?thesis by (intro exI[of _ j']) simp
      qed
    qed
    with a True show ?thesis by simp
  next
    case False
    then have a: "m' s = Some k \<longleftrightarrow> ?m s = Some k"
      using IH by (metis length_map nth_map nth_mem)
    have b: "\<not> (\<exists>j<length ns. node_id (ns ! j) = s \<and> own_key s)"
      using False by (metis length_map nth_map nth_mem)
    show ?thesis
    proof (cases "node_id n = s \<and> own_key s")
      case True
      with False have "s \<notin> set (map node_id ns)" by simp
      have ms: "?m s = Some i" using True by (simp add: set_prop_def own_key_def)
      have "(\<exists>j<length (n # ns). k = i + j \<and> node_id ((n # ns) ! j) = s \<and> s \<notin> set (map node_id (drop (Suc j) (n # ns))) \<and> own_key s) \<longleftrightarrow> k = i"
        (is "?L \<longleftrightarrow> _")
      proof
        assume ?L
        then obtain j where j: "j<length (n # ns)" "k = i + j" "node_id ((n # ns) ! j) = s" by blast
        show "k = i"
        proof (cases j)
          case 0 with j show ?thesis by simp
        next
          case (Suc j')
          with j b True show ?thesis by auto
        qed
      next
        assume "k = i"
        then show ?L using True \<open>s \<notin> set (map node_id ns)\<close> by (intro exI[of _ 0]) simp
      qed
      moreover have "\<not> (s \<notin> set (map node_id (n # ns)) \<or> \<not> own_key s)" using True by simp
      ultimately show ?thesis using a ms by auto
    next
      case False2: False
      have c: "?m s = m s" using False2 by (auto simp: set_prop_def own_key_def)
      have "\<not> (\<exists>j<length (n # ns). node_id ((n # ns) ! j) = s \<and> own_key s)"
        using b False2 by (auto simp: nth_Cons split: nat.splits)
      with a c False False2 show ?thesis by auto
    qed
  qed
qed


lemma fill_nodes_init:
  assumes "fill_nodes nodes 0 ([], [], Map.empty) = (d, nd, m)"
  shows "length d = 4 * length nodes" "nd = replicate (length nodes) []"
    "m s = Some k \<longleftrightarrow> denotes nodes s k \<and> own_key s"
  using fill_nodes_shape[OF assms] fill_nodes_map[OF assms, of s k]
  by (auto simp: denotes_def)

subsection \<open>The edge loop\<close>

lemma link_edges_ok:
  "link_edges es m nd li = (li', Inr nd') \<Longrightarrow>
     length nd' = length nd \<and> (\<forall>e\<in>set es. m (source e) \<noteq> None \<and> m (target e) \<noteq> None) \<and>
     (\<forall>i<length nd. nd' ! i = nd ! i @ adj m es i)"
proof (induction es arbitrary: nd li)
  case Nil
  then show ?case by (simp add: adj_def)
next
  case (Cons e es)
  from Cons.prems obtain s t where st: "m (source e) = Some s" "m (target e) = Some t"
    by (auto split: option.splits)
  with Cons.prems have rng: "s < length nd" "t < length nd"
    by (auto split: if_splits)
  define nd1 where "nd1 = nd[s := nd ! s @ [t]]"
  define nd2 where "nd2 = nd1[t := nd1 ! t @ [s]]"
  from Cons.prems st rng have rec: "link_edges es m nd2 (li @ [s, t]) = (li', Inr nd')"
    by (simp add: nd1_def nd2_def Let_def)
  have step: "nd2 ! i = nd ! i @ (if s = i then [t] else []) @ (if t = i then [s] else [])"
    if "i < length nd" for i
    using that rng by (auto simp: nd1_def nd2_def nth_list_update)
  have len: "length nd2 = length nd" by (simp add: nd1_def nd2_def)
  from Cons.IH[OF rec] len step st show ?case
    by (auto simp: adj_def)
qed

lemma link_edges_returns:
  "\<forall>e\<in>set es. \<exists>s t. m (source e) = Some s \<and> m (target e) = Some t \<and> s < length nd \<and> t < length nd
    \<Longrightarrow> \<exists>li' nd'. link_edges es m nd li = (li', Inr nd')"
proof (induction es arbitrary: nd li)
  case Nil
  then show ?case by simp
next
  case (Cons e es)
  then obtain s t where st: "m (source e) = Some s" "m (target e) = Some t" "s < length nd" "t < length nd"
    by auto
  have "\<forall>e\<in>set es. \<exists>s' t'. m (source e) = Some s' \<and> m (target e) = Some t' \<and>
          s' < length ((nd[s := nd ! s @ [t]])[t := (nd[s := nd ! s @ [t]]) ! t @ [s]]) \<and>
          t' < length ((nd[s := nd ! s @ [t]])[t := (nd[s := nd ! s @ [t]]) ! t @ [s]])"
    using Cons.prems by simp
  from Cons.IH[OF this] st show ?case by (simp add: Let_def)
qed

subsection \<open>The adjacency loop\<close>

lemma offs_Suc: "j < length nd \<Longrightarrow> offs nd b (Suc j) = offs nd b j + length (nd ! j)"
  by (simp add: offs_def take_Suc_conv_app_nth)

lemma offs_mono: "j \<le> k \<Longrightarrow> k \<le> length nd \<Longrightarrow> offs nd b j \<le> offs nd b k"
proof (induction k)
  case 0 then show ?case by simp
next
  case (Suc k)
  show ?case
  proof (cases "j = Suc k")
    case True then show ?thesis by simp
  next
    case False
    with Suc have "offs nd b j \<le> offs nd b k" by simp
    also have "\<dots> \<le> offs nd b (Suc k)" using Suc.prems by (simp add: offs_Suc)
    finally show ?thesis .
  qed
qed

lemma offs_base: "b \<le> offs nd b j" by (simp add: offs_def)

lemma fold_adj_step:
  assumes "k \<le> length nd" "4 * length nd \<le> length d0"
  shows "\<exists>d. fold (adj_step nd) [0..<k] (d0, 0) = (d, fold max (map length (take k nd)) 0) \<and>
           length d = offs nd (length d0) k \<and>
           (\<forall>j<k. d ! (j * 4 + 2) = real (offs nd (length d0) j) \<and>
                  d ! (j * 4 + 3) = real (length (nd ! j)) \<and>
                  take (length (nd ! j)) (drop (offs nd (length d0) j) d) = map real (nd ! j))"
  using assms
proof (induction k)
  case 0
  then show ?case by (simp add: offs_def)
next
  case (Suc k)
  then obtain d where d: "fold (adj_step nd) [0..<k] (d0, 0) = (d, fold max (map length (take k nd)) 0)"
    "length d = offs nd (length d0) k"
    and old: "\<And>j. j < k \<Longrightarrow> d ! (j * 4 + 2) = real (offs nd (length d0) j) \<and>
                  d ! (j * 4 + 3) = real (length (nd ! j)) \<and>
                  take (length (nd ! j)) (drop (offs nd (length d0) j) d) = map real (nd ! j)"
    by auto
  let ?b = "length d0"
  define d1 where "d1 = (d[k * 4 + 2 := real (length d)])[k * 4 + 3 := real (length (nd ! k))]"
  define d' where "d' = d1 @ map real (nd ! k)"
  have k: "k < length nd" using Suc.prems by simp
  have ld: "4 * length nd \<le> length d" using d(2) offs_base[of ?b nd k] Suc.prems by simp
  have l1: "length d1 = length d" by (simp add: d1_def)
  have st: "fold (adj_step nd) [0..<Suc k] (d0, 0) = (d', fold max (map length (take (Suc k) nd)) 0)"
    using d(1) k by (simp add: adj_step_def Let_def d'_def d1_def take_Suc_conv_app_nth max.commute)
  have len: "length d' = offs nd ?b (Suc k)"
    using d(2) k by (simp add: d'_def l1 offs_Suc)
  have new: "d' ! (j * 4 + 2) = real (offs nd ?b j) \<and>
             d' ! (j * 4 + 3) = real (length (nd ! j)) \<and>
             take (length (nd ! j)) (drop (offs nd ?b j) d') = map real (nd ! j)" if "j < Suc k" for j
  proof (cases "j = k")
    case True
    have "d' ! (k * 4 + 2) = d1 ! (k * 4 + 2)" using ld k l1 by (simp add: d'_def nth_append)
    also have "\<dots> = real (length d)" using ld k by (simp add: d1_def)
    finally have a: "d' ! (k * 4 + 2) = real (offs nd ?b k)" using d(2) by simp
    have "d' ! (k * 4 + 3) = d1 ! (k * 4 + 3)" using ld k l1 by (simp add: d'_def nth_append)
    also have "\<dots> = real (length (nd ! k))" using ld k by (simp add: d1_def)
    finally have b: "d' ! (k * 4 + 3) = real (length (nd ! k))" .
    have c: "take (length (nd ! k)) (drop (offs nd ?b k) d') = map real (nd ! k)"
      using d(2) l1 by (simp add: d'_def)
    from a b c True show ?thesis by simp
  next
    case False
    with that have jk: "j < k" by simp
    have o: "offs nd ?b j + length (nd ! j) \<le> length d"
      using offs_mono[of "Suc j" k nd ?b] jk k d(2) by (simp add: offs_Suc)
    have ob: "4 * length nd \<le> offs nd ?b j" using offs_base[of ?b nd j] Suc.prems by simp
    have a: "d' ! (j * 4 + 2) = d ! (j * 4 + 2)" using ld k l1 jk
      by (simp add: d'_def nth_append d1_def)
    have b: "d' ! (j * 4 + 3) = d ! (j * 4 + 3)" using ld k l1 jk
      by (simp add: d'_def nth_append d1_def)
    have "drop (offs nd ?b j) d1 = drop (offs nd ?b j) d"
      using ob k by (simp add: d1_def drop_update_cancel)
    then have c: "take (length (nd ! j)) (drop (offs nd ?b j) d') = take (length (nd ! j)) (drop (offs nd ?b j) d)"
      using o l1 by (simp add: d'_def)
    from a b c old[OF jk] show ?thesis by simp
  qed
  from st len new show ?case by blast
qed

subsection \<open>Ids and positions\<close>

lemma denotes_unique: "denotes nodes s j \<Longrightarrow> denotes nodes s k \<Longrightarrow> j = k"
proof (rule ccontr)
  assume a: "denotes nodes s j" "denotes nodes s k" and ne: "j \<noteq> k"
  have aux: False if "denotes nodes s a" "denotes nodes s b" "a < b" for a b
  proof -
    from that have "b < length nodes" "node_id (nodes ! b) = s" by (auto simp: denotes_def)
    moreover have "nodes ! b = drop (Suc a) nodes ! (b - Suc a)" using that(3) \<open>b < length nodes\<close> by simp
    ultimately have "s \<in> set (map node_id (drop (Suc a) nodes))"
      using that(3) by (metis (no_types, lifting) diff_less_mono image_eqI length_drop list.set_map nth_mem Suc_leI)
    with that(1) show False by (simp add: denotes_def)
  qed
  from ne a aux[of j k] aux[of k j] show False by (cases "j < k") auto
qed

lemma filter_upt_single:
  assumes "k < n" "P k" "\<forall>j<n. P j \<longrightarrow> j = k"
  shows "filter P [0..<n] = [k]"
proof -
  have split: "[0..<n] = [0..<k] @ k # [Suc k..<n]"
    using assms(1) upt_add_eq_append[of 0 k "n - k"] upt_conv_Cons[of k n] by simp
  have a: "filter P [0..<k] = []"
  proof (rule filter_False, rule ballI)
    fix x assume "x \<in> set [0..<k]"
    then have "x < k" by simp
    with assms(1,3) show "\<not> P x" by (metis less_irrefl less_trans)
  qed
  have b: "filter P [Suc k..<n] = []"
  proof (rule filter_False, rule ballI)
    fix x assume "x \<in> set [Suc k..<n]"
    then have "k < x" "x < n" by simp_all
    with assms(3) show "\<not> P x" by (metis less_irrefl)
  qed
  show ?thesis unfolding split using a b assms(2) by simp
qed

lemma positions_denotes:
  assumes "denotes nodes s k"
  shows "positions nodes s = [k]"
  unfolding positions_def
proof (rule filter_upt_single)
  show "k < length nodes" using assms by (simp add: denotes_def)
  show "denotes nodes s k" by fact
  show "\<forall>j<length nodes. denotes nodes s j \<longrightarrow> j = k"
    using denotes_unique assms by blast
qed

lemma length_adj:
  "length (adj m es i) =
     length (filter (\<lambda>e. m (source e) = Some i) es) + length (filter (\<lambda>e. m (target e) = Some i) es)"
  by (induction es) (auto simp: adj_def)

lemma adj_bridge:
  assumes m: "\<And>s k. m s = Some k \<longleftrightarrow> denotes nodes s k \<and> own_key s"
    and ok: "\<forall>e\<in>set es. m (source e) \<noteq> None \<and> m (target e) \<noteq> None"
  shows "adj m es i = neighbours nodes es i" "length (adj m es i) = incidence nodes es i"
proof -
  have key: "m s = Some k \<longleftrightarrow> denotes nodes s k" if "m s \<noteq> None" for s k
    using that m by (metis not_Some_eq)
  have pos: "[the (m s)] = positions nodes s" if "m s \<noteq> None" for s
    using that key[OF that] positions_denotes by fastforce
  show "adj m es i = neighbours nodes es i"
    unfolding adj_def neighbours_def
    by (rule arg_cong[where f = concat], rule map_cong) (use ok key pos in auto)
  have "filter (\<lambda>e. m (source e) = Some i) es = filter (\<lambda>e. denotes nodes (source e) i) es"
    by (rule filter_cong) (use ok key in auto)
  moreover have "filter (\<lambda>e. m (target e) = Some i) es = filter (\<lambda>e. denotes nodes (target e) i) es"
    by (rule filter_cong) (use ok key in auto)
  ultimately show "length (adj m es i) = incidence nodes es i"
    by (simp add: length_adj incidence_def)
qed

lemma denotes_distinct:
  assumes "distinct (map node_id nodes)" "i < length nodes"
  shows "denotes nodes s i \<longleftrightarrow> s = node_id (nodes ! i)"
proof -
  have "node_id (nodes ! i) \<notin> set (map node_id (drop (Suc i) nodes))"
  proof
    assume "node_id (nodes ! i) \<in> set (map node_id (drop (Suc i) nodes))"
    then obtain k where k: "k < length (drop (Suc i) nodes)" "node_id (drop (Suc i) nodes ! k) = node_id (nodes ! i)"
      by (metis (no_types, lifting) in_set_conv_nth length_map nth_map)
    then have "Suc i + k < length nodes" "map node_id nodes ! (Suc i + k) = map node_id nodes ! i"
      using assms(2) by auto
    with nth_eq_iff_index_eq[OF assms(1), of "Suc i + k" i] assms(2) show False by simp
  qed
  with assms(2) show ?thesis by (auto simp: denotes_def)
qed

lemma incidence_distinct:
  "distinct (map node_id nodes) \<Longrightarrow> i < length nodes
    \<Longrightarrow> incidence nodes edges i = incident_endpoints nodes edges i"
  by (simp add: incidence_def incident_endpoints_def denotes_distinct)

lemma denotes_exists: "s \<in> set (map node_id nodes) \<Longrightarrow> \<exists>k. denotes nodes s k"
proof (induction nodes)
  case Nil then show ?case by simp
next
  case (Cons n ns)
  show ?case
  proof (cases "s \<in> set (map node_id ns)")
    case True
    with Cons.IH obtain k where "denotes ns s k" by blast
    then have "denotes (n # ns) s (Suc k)" by (simp add: denotes_def)
    then show ?thesis by blast
  next
    case False
    with Cons.prems have "denotes (n # ns) s 0" by (simp add: denotes_def)
    then show ?thesis by blast
  qed
qed

lemma buildTextureData_returns:
  assumes "\<forall>e\<in>set edges. source e \<in> set (map node_id nodes) \<and> source e \<noteq> ''__proto__'' \<and>
                          target e \<in> set (map node_id nodes) \<and> target e \<noteq> ''__proto__''"
  shows "\<exists>arr g'. buildTextureData f32 nodes edges g = (Inr arr, g')"
proof -
  obtain d0 nd0 m where fill: "fill_nodes nodes 0 ([], [], Map.empty) = (d0, nd0, m)"
    by (metis prod_cases3)
  note f = fill_nodes_init[OF fill]
  have res: "\<exists>k. m s = Some k \<and> k < length nd0" if "s \<in> set (map node_id nodes)" "s \<noteq> ''__proto__''" for s
  proof -
    from denotes_exists[OF that(1)] obtain k where k: "denotes nodes s k" by blast
    then have "m s = Some k" using f(3)[of s k] that(2) by (simp add: own_key_def)
    moreover have "k < length nd0" using k f(2) by (simp add: denotes_def)
    ultimately show ?thesis by blast
  qed
  have "\<forall>e\<in>set edges. \<exists>s t. m (source e) = Some s \<and> m (target e) = Some t \<and> s < length nd0 \<and> t < length nd0"
    using assms res by blast
  from link_edges_returns[OF this, of "lineIndexBufferData g"]
  obtain li nd where "link_edges edges m nd0 (lineIndexBufferData g) = (li, Inr nd)" by blast
  with fill show ?thesis by (simp add: buildTextureData_def split: prod.splits)
qed

subsection \<open>The returned array\<close>

lemma example_run:
  "buildTextureData id example_nodes example_edges fresh_globals =
     (Inr [0, 0, 8, 1, 1, 0, 9, 1, 1, 0, 0, 0],
      \<lparr>lineIndexBufferData = [0, 1], maxEdgePerVetex = Some 1\<rparr>)"
  by (simp add: buildTextureData_def example_nodes_def example_edges_def fresh_globals_def
      set_prop_def adj_step_def pad4.simps upt_rec Let_def)


text \<open>
  C9. Whenever \<open>buildTextureData\<close> returns an array, its length is a multiple of 4: it
  splits into whole \<^verbatim>\<open>vec4\<close> elements. (It returns for every input whose edges name
  ids of nodes, by \<open>buildTextureData_returns\<close>; on other inputs it throws.)
\<close>

theorem buildTextureData_whole_vec4:
  assumes "buildTextureData f32 nodes edges g = (Inr arr, g')"
  shows "length arr mod 4 = 0"
proof -
  from assms obtain d where "arr = map f32 (pad4 d)"
    by (auto simp: buildTextureData_def split: prod.splits sum.splits)
  then show ?thesis by (simp add: length_pad4)
qed

theorem buildTextureData_whole_vec4_witness:
  "buildTextureData id example_nodes example_edges fresh_globals =
     (Inr [0, 0, 8, 1, 1, 0, 9, 1, 1, 0, 0, 0],
      \<lparr>lineIndexBufferData = [0, 1], maxEdgePerVetex = Some 1\<rparr>) \<and>
   length [0, 0, 8, 1, 1, 0, 9, 1, 1, 0, 0, 0 :: real] mod 4 = 0"
  using buildTextureData_whole_vec4 [OF example_run] example_run by simp

text \<open>
  C10, as stated, fails when two nodes share an id. Of the nodes \<open>a, a, b\<close> and the edge
  \<open>a \<rightarrow> b\<close>, the first node carries the id of one edge endpoint, yet the array holds \<open>0\<close>
  at element \<open>4 * 0 + 3\<close>: the edge is entered for the last node with that id only.
\<close>

theorem buildTextureData_twin_ids_counterexample:
  "buildTextureData id twin_nodes example_edges fresh_globals =
     (Inr [0, 0, 12, 0, 1, 0, 12, 1, 2, 0, 13, 1, 2, 1, 0, 0],
      \<lparr>lineIndexBufferData = [1, 2], maxEdgePerVetex = Some 1\<rparr>) \<and>
   incident_endpoints twin_nodes example_edges 0 = 1 \<and>
   [0, 0, 12, 0, 1, 0, 12, 1, 2, 0, 13, 1, 2, 1, 0, 0 :: real] ! (4 * 0 + 3) = 0"
  by (simp add: buildTextureData_def twin_nodes_def example_edges_def fresh_globals_def
      set_prop_def adj_step_def pad4.simps upt_rec Let_def incident_endpoints_def)

text \<open>
  C10, amended. Whenever \<open>buildTextureData\<close> returns an array, then for every node index
  \<open>i\<close>: element \<open>4 * i + 2\<close> holds (as a 32-bit float) the offset \<open>adj_offset\<close> at which
  the adjacency list of node \<open>i\<close> begins, and the elements from that offset on are the
  positions of its neighbours; element \<open>4 * i + 3\<close> holds the number of edge endpoints
  that denote node \<open>i\<close>, an edge counted once for each endpoint, where an id shared by
  several nodes denotes the last of them; and afterwards \<open>maxEdgePerVetex\<close> is the maximum
  of these numbers over all nodes (\<open>0\<close> without nodes). With pairwise distinct ids the
  number of endpoints that denote node \<open>i\<close> is the number of endpoints carrying its id.
\<close>

theorem buildTextureData_layout:
  assumes run: "buildTextureData f32 nodes edges g = (Inr arr, g')" and i: "i < length nodes"
  shows "arr ! (4 * i + 2) = f32 (real (adj_offset nodes edges i)) \<and>
         take (incidence nodes edges i) (drop (adj_offset nodes edges i) arr)
           = map (f32 \<circ> real) (neighbours nodes edges i) \<and>
         arr ! (4 * i + 3) = f32 (real (incidence nodes edges i)) \<and>
         maxEdgePerVetex g' = Some (Max (set (0 # map (incidence nodes edges) [0..<length nodes]))) \<and>
         (distinct (map node_id nodes)
            \<longrightarrow> incidence nodes edges i = incident_endpoints nodes edges i)"
proof -
  let ?n = "length nodes"
  obtain d0 nd0 m where fill: "fill_nodes nodes 0 ([], [], Map.empty) = (d0, nd0, m)"
    by (metis prod_cases3)
  note f = fill_nodes_init[OF fill]
  from run fill obtain li nd where link: "link_edges edges m nd0 (lineIndexBufferData g) = (li, Inr nd)"
    by (auto simp: buildTextureData_def split: prod.splits sum.splits)
  note l = link_edges_ok[OF link]
  have lnd: "length nd = ?n" using l f(2) by simp
  have ndj: "nd ! j = adj m edges j" if "j < ?n" for j using l f(2) that by simp
  have br: "adj m edges j = neighbours nodes edges j" "length (adj m edges j) = incidence nodes edges j" for j
    using adj_bridge[of m nodes edges j] f(3) l by blast+
  have lens: "map length nd = map (incidence nodes edges) [0..<?n]"
    by (rule nth_equalityI) (simp_all add: lnd ndj br(2))
  have offs: "offs nd (length d0) j = adj_offset nodes edges j" if "j \<le> ?n" for j
  proof -
    have "map length (take j nd) = take j (map length nd)" by (simp add: take_map)
    also have "\<dots> = take j (map (incidence nodes edges) [0..<?n])" by (simp only: lens)
    also have "\<dots> = map (incidence nodes edges) [0..<j]" using that by (simp add: take_map)
    finally show ?thesis by (simp add: offs_def adj_offset_def f(1))
  qed
  from fold_adj_step[of ?n nd d0] lnd f(1)
  obtain d where d: "fold (adj_step nd) [0..<?n] (d0, 0) = (d, fold max (map length (take ?n nd)) 0)"
    "length d = offs nd (length d0) ?n"
    and el: "\<And>j. j < ?n \<Longrightarrow> d ! (j * 4 + 2) = real (offs nd (length d0) j) \<and>
                  d ! (j * 4 + 3) = real (length (nd ! j)) \<and>
                  take (length (nd ! j)) (drop (offs nd (length d0) j) d) = map real (nd ! j)"
    by auto
  from run fill link d have arr: "arr = map f32 (pad4 d)"
    and g': "g' = g\<lparr>lineIndexBufferData := li, maxEdgePerVetex := Some (fold max (map length (take ?n nd)) 0)\<rparr>"
    by (auto simp: buildTextureData_def)
  obtain p where p: "pad4 d = d @ replicate p 0" using pad4_append by blast
  have ld: "4 * ?n \<le> length d" using d(2) offs_base[of "length d0" nd ?n] f(1) by simp
  have reg: "adj_offset nodes edges i + incidence nodes edges i \<le> length d"
    using offs_mono[of "Suc i" ?n nd "length d0"] i lnd d(2) offs[of i] br(2)[of i] ndj[of i]
    by (simp add: offs_Suc)
  have c1: "arr ! (4 * i + 2) = f32 (real (adj_offset nodes edges i))"
    using el[OF i] ld i offs[of i] by (simp add: arr p nth_append mult.commute)
  have c3: "arr ! (4 * i + 3) = f32 (real (incidence nodes edges i))"
    using el[OF i] ld i ndj[OF i] br(2)[of i] by (simp add: arr p nth_append mult.commute)
  have c2: "take (incidence nodes edges i) (drop (adj_offset nodes edges i) arr)
           = map (f32 \<circ> real) (neighbours nodes edges i)"
  proof -
    have "take (incidence nodes edges i) (drop (adj_offset nodes edges i) (pad4 d))
            = take (incidence nodes edges i) (drop (adj_offset nodes edges i) d)"
      using reg by (simp add: p)
    also have "\<dots> = map real (neighbours nodes edges i)"
      using el[OF i] offs[of i] i ndj[OF i] br[of i] by simp
    finally show ?thesis by (simp add: arr take_map drop_map)
  qed
  have c4: "maxEdgePerVetex g' = Some (Max (set (0 # map (incidence nodes edges) [0..<length nodes])))"
    using lens lnd by (simp add: g' Max.set_eq_fold del: set_simps)
  have c5: "distinct (map node_id nodes) \<longrightarrow> incidence nodes edges i = incident_endpoints nodes edges i"
    using incidence_distinct [of nodes i edges] i by blast
  from c1 c2 c3 c4 c5 show ?thesis by blast
qed

theorem buildTextureData_layout_witness:
  "buildTextureData id example_nodes example_edges fresh_globals =
     (Inr [0, 0, 8, 1, 1, 0, 9, 1, 1, 0, 0, 0],
      \<lparr>lineIndexBufferData = [0, 1], maxEdgePerVetex = Some 1\<rparr>) \<and>
   (0::nat) < length example_nodes \<and>
   distinct (map node_id example_nodes) \<and>
   adj_offset example_nodes example_edges 0 = 8 \<and>
   neighbours example_nodes example_edges 0 = [1] \<and>
   incidence example_nodes example_edges 0 = 1 \<and>
   incident_endpoints example_nodes example_edges 0 = 1 \<and>
   Max (set (0 # map (incidence example_nodes example_edges) [0..<length example_nodes])) = 1"
proof -
  have len: "(0::nat) < length example_nodes" by (simp add: example_nodes_def)
  have dis: "distinct (map node_id example_nodes)" by (simp add: example_nodes_def)
  have v: "adj_offset example_nodes example_edges 0 = 8"
    "neighbours example_nodes example_edges 0 = [1]"
    "incidence example_nodes example_edges 0 = 1"
    "incidence example_nodes example_edges 1 = 1"
    "incident_endpoints example_nodes example_edges 0 = 1"
    by (simp_all add: adj_offset_def neighbours_def incidence_def incident_endpoints_def
        positions_def denotes_def example_nodes_def example_edges_def upt_rec)
  have m: "Max (set (0 # map (incidence example_nodes example_edges) [0..<length example_nodes])) = 1"
    using v(3,4) by (simp add: example_nodes_def upt_rec)
  from buildTextureData_layout [OF example_run len] example_run len dis v m
  show ?thesis by simp
qed


section \<open>Properties of the compute scheduler\<close>

lemma states_append: "states (xs @ ys) = states xs @ states ys"
  by (induction xs rule: states.induct) auto


lemma handoffs_append: "handoffs (xs @ ys) = handoffs xs @ handoffs ys"
  by (induction xs rule: handoffs.induct) auto

lemma map_Dispatch [simp]:
  "states (map Dispatch ds) = []" "dispatches (map Dispatch ds) = ds" "handoffs (map Dispatch ds) = []"
  by (induction ds) auto

lemma loop_exitE:
  assumes "loop_exit t"
  obtains snap where "t = [Enter Completed, Handoff snap]"
  | err where "t = [Enter (Failed (BackendFailure err))]"
  | "t = [Enter Cancelled]"
  using assms by (induction t rule: loop_exit.induct) auto

lemma dispatch_loop_shape:
  assumes "dispatch_loop be ctx desc pred cancel i a slots events = Some out"
  shows "\<exists>ds t. out = events @ map Dispatch ds @ t \<and> loop_exit t"
  using assms
proof (induction rule: dispatch_loop.raw_induct[rotated, consumes 1])
  case (1 loop be ctx desc pred cancel i a slots events out)
  show ?case
  proof (cases "maxIterations desc = Some i")
    case True
    with 1(2) have "out = events @ map Dispatch [] @ [Enter Completed, Handoff (readback a slots)]"
      by simp
    then show ?thesis by (metis loop_exit.simps(1))
  next
    case False
    show ?thesis
    proof (cases "dispatch be i (workgroupSize ctx) (counts desc) (view a slots)")
      case (Inl err)
      with 1(2) False have "out = events @ map Dispatch [i] @ [Enter (Failed (BackendFailure err))]"
        by simp
      then show ?thesis by (metis loop_exit.simps(2))
    next
      case (Inr written)
      let ?slots = "map (write_slot a written) slots"
      show ?thesis
      proof (cases "cancel i")
        case True
        with 1(2) False Inr have "out = events @ map Dispatch [i] @ [Enter Cancelled]"
          by simp
        then show ?thesis by (metis loop_exit.simps(3))
      next
        case nc: False
        show ?thesis
        proof (cases "case pred of None \<Rightarrow> False | Some p \<Rightarrow> p (Suc i) (view (swap a) ?slots)")
          case True
          with 1(2) False Inr nc
          have "out = events @ map Dispatch [i] @ [Enter Completed, Handoff (readback (swap a) ?slots)]"
            by (simp add: Let_def)
          then show ?thesis by (metis loop_exit.simps(1))
        next
          case np: False
          with 1(2) False Inr nc
          have "loop be ctx desc pred cancel (Suc i) (swap a) ?slots (events @ [Dispatch i]) = Some out"
            by (simp add: Let_def)
          from 1(1)[OF this] obtain ds t where "out = (events @ [Dispatch i]) @ map Dispatch ds @ t" "loop_exit t"
            by blast
          then have "out = events @ map Dispatch (i # ds) @ t \<and> loop_exit t" by simp
          then show ?thesis by blast
        qed
      qed
    qed
  qed
qed



lemma final_state_simps:
  "final_state (es @ [Enter s]) = s"
  "final_state (es @ [Enter s, Handoff snap]) = s"
  "final_state (es @ map Dispatch ds) = final_state es"
  by (simp_all add: final_state_def states_append)

lemma exit_facts:
  assumes e: "events = pre @ map Dispatch ds @ t" and t: "loop_exit t"
    and pre: "final_state pre = Running" "handoffs pre = []" "\<forall>err. Enter (Failed err) \<notin> set pre"
  shows "length (handoffs events) = (if final_state events = Completed then 1 else 0) \<and>
         (final_state events = Completed \<longrightarrow>
            (\<exists>pre snap. events = pre @ [Enter Completed, Handoff snap] \<and>
                        final_state pre = Running \<and> handoffs pre = [])) \<and>
         ((\<exists>err. final_state events = Failed err) \<or> final_state events = Cancelled
            \<longrightarrow> handoffs events = []) \<and>
         (\<forall>err. Enter (Failed (BackendFailure err)) \<in> set events
            \<longrightarrow> final_state events = Failed (BackendFailure err) \<and> handoffs events = [])"
  using t
proof (cases rule: loop_exitE)
  case (1 snap)
  let ?p = "pre @ map Dispatch ds"
  have s: "events = ?p @ [Enter Completed, Handoff snap]" using e 1 by simp
  have p: "final_state ?p = Running" "handoffs ?p = []"
    using pre by (simp_all add: final_state_def states_append handoffs_append)
  have f: "final_state events = Completed" by (simp add: s final_state_def states_append)
  have h: "handoffs events = [snap]" using pre(2) by (simp add: e 1 handoffs_append)
  have n: "Enter (Failed (BackendFailure err)) \<notin> set events" for err
    using pre(3) by (auto simp: e 1)
  have c2: "\<exists>pre snap. events = pre @ [Enter Completed, Handoff snap] \<and>
                        final_state pre = Running \<and> handoffs pre = []"
    using s p by blast
  show ?thesis using f h n c2 by simp
next
  case (2 err)
  have f: "final_state events = Failed (BackendFailure err)"
    by (simp add: e 2 final_state_def states_append)
  have h: "handoffs events = []" using pre(2) by (simp add: e 2 handoffs_append)
  have n: "Enter (Failed (BackendFailure err')) \<in> set events \<longrightarrow> err' = err" for err'
    using pre(3) by (auto simp: e 2)
  show ?thesis using f h n by auto
next
  case 3
  have f: "final_state events = Cancelled" by (simp add: e 3 final_state_def states_append)
  have h: "handoffs events = []" using pre(2) by (simp add: e 3 handoffs_append)
  have n: "Enter (Failed (BackendFailure err)) \<notin> set events" for err
    using pre(3) by (auto simp: e 3)
  show ?thesis using f h n by simp
qed

subsection \<open>The loop, iteration by iteration\<close>

lemma loop_advance:
  assumes "\<forall>j<k. continues be ctx desc pred cancel slots j"
  shows "dispatch_loop be ctx desc pred cancel 0 Front slots ev =
         dispatch_loop be ctx desc pred cancel k (fst (state_after be ctx desc slots k))
           (snd (state_after be ctx desc slots k)) (ev @ map Dispatch [0..<k])"
  using assms
proof (induction k)
  case 0
  then show ?case by simp
next
  case (Suc k)
  obtain a sl where st: "state_after be ctx desc slots k = (a, sl)" by (cases "state_after be ctx desc slots k")
  from Suc.prems have c: "continues be ctx desc pred cancel slots k" by simp
  then obtain w where w: "dispatch be k (workgroupSize ctx) (counts desc) (view a sl) = Inr w"
    by (auto simp: continues_def succeeds_def dispatch_result_def view_after_def st split: sum.splits)
  have st': "state_after be ctx desc slots (Suc k) = (swap a, map (write_slot a w) sl)"
    by (simp add: st w)
  have va': "view_after be ctx desc slots (Suc k) = view (swap a) (map (write_slot a w) sl)"
    by (simp only: view_after_def st' prod.case)
  from c have ne: "maxIterations desc \<noteq> Some k" and nc: "\<not> cancel k"
    and nr: "\<not> (case pred of None \<Rightarrow> False | Some p \<Rightarrow> p (Suc k) (view (swap a) (map (write_slot a w) sl)))"
    by (auto simp: continues_def reports_def va' split: option.splits)
  have step: "dispatch_loop be ctx desc pred cancel k a sl (ev @ map Dispatch [0..<k])
        = dispatch_loop be ctx desc pred cancel (Suc k) (swap a) (map (write_slot a w) sl)
            ((ev @ map Dispatch [0..<k]) @ [Dispatch k])"
    using ne nc nr w by (subst dispatch_loop.simps) (simp add: Let_def)
  from Suc.IH Suc.prems have "dispatch_loop be ctx desc pred cancel 0 Front slots ev =
         dispatch_loop be ctx desc pred cancel k a sl (ev @ map Dispatch [0..<k])"
    by (simp add: st)
  with step show ?case by (simp add: st w)
qed

lemma loop_exit_bound:
  assumes "\<forall>j<k. continues be ctx desc pred cancel slots j" "maxIterations desc = Some k"
  shows "dispatch_loop be ctx desc pred cancel 0 Front slots ev =
           Some (ev @ map Dispatch [0..<k] @ [Enter Completed, Handoff (readback_after be ctx desc slots k)])"
proof -
  obtain a sl where st: "state_after be ctx desc slots k = (a, sl)" by (cases "state_after be ctx desc slots k")
  have "dispatch_loop be ctx desc pred cancel k a sl (ev @ map Dispatch [0..<k])
          = Some ((ev @ map Dispatch [0..<k]) @ [Enter Completed, Handoff (readback a sl)])"
    using assms(2) by (subst dispatch_loop.simps) simp
  with loop_advance[OF assms(1), of ev] show ?thesis by (simp add: st readback_after_def)
qed

lemma loop_exit_error:
  assumes "\<forall>j<k. continues be ctx desc pred cancel slots j" "maxIterations desc \<noteq> Some k"
    "dispatch_result be ctx desc slots k = Inl err"
  shows "dispatch_loop be ctx desc pred cancel 0 Front slots ev =
           Some (ev @ map Dispatch [0..<Suc k] @ [Enter (Failed (BackendFailure err))])"
proof -
  obtain a sl where st: "state_after be ctx desc slots k = (a, sl)" by (cases "state_after be ctx desc slots k")
  from assms(3) have "dispatch be k (workgroupSize ctx) (counts desc) (view a sl) = Inl err"
    by (simp add: dispatch_result_def view_after_def st)
  then have "dispatch_loop be ctx desc pred cancel k a sl (ev @ map Dispatch [0..<k])
          = Some ((ev @ map Dispatch [0..<k]) @ [Dispatch k, Enter (Failed (BackendFailure err))])"
    using assms(2) by (subst dispatch_loop.simps) simp
  with loop_advance[OF assms(1), of ev] show ?thesis by (simp add: st)
qed

lemma loop_exit_cancel:
  assumes "\<forall>j<k. continues be ctx desc pred cancel slots j" "maxIterations desc \<noteq> Some k"
    "succeeds be ctx desc slots k" "cancel k"
  shows "dispatch_loop be ctx desc pred cancel 0 Front slots ev =
           Some (ev @ map Dispatch [0..<Suc k] @ [Enter Cancelled])"
proof -
  obtain a sl where st: "state_after be ctx desc slots k = (a, sl)" by (cases "state_after be ctx desc slots k")
  from assms(3) obtain w where "dispatch be k (workgroupSize ctx) (counts desc) (view a sl) = Inr w"
    by (auto simp: succeeds_def dispatch_result_def view_after_def st split: sum.splits)
  then have "dispatch_loop be ctx desc pred cancel k a sl (ev @ map Dispatch [0..<k])
          = Some ((ev @ map Dispatch [0..<k]) @ [Dispatch k, Enter Cancelled])"
    using assms(2,4) by (subst dispatch_loop.simps) (simp add: Let_def)
  with loop_advance[OF assms(1), of ev] show ?thesis by (simp add: st)
qed

lemma loop_exit_reported:
  assumes "\<forall>j<k. continues be ctx desc pred cancel slots j" "maxIterations desc \<noteq> Some k"
    "succeeds be ctx desc slots k" "\<not> cancel k"
    "reports pred (Suc k) (view_after be ctx desc slots (Suc k))"
  shows "dispatch_loop be ctx desc pred cancel 0 Front slots ev =
           Some (ev @ map Dispatch [0..<Suc k] @
                 [Enter Completed, Handoff (readback_after be ctx desc slots (Suc k))])"
proof -
  obtain a sl where st: "state_after be ctx desc slots k = (a, sl)" by (cases "state_after be ctx desc slots k")
  from assms(3) obtain w where w: "dispatch be k (workgroupSize ctx) (counts desc) (view a sl) = Inr w"
    by (auto simp: succeeds_def dispatch_result_def view_after_def st split: sum.splits)
  have st': "state_after be ctx desc slots (Suc k) = (swap a, map (write_slot a w) sl)"
    by (simp add: st w)
  have va': "view_after be ctx desc slots (Suc k) = view (swap a) (map (write_slot a w) sl)"
    by (simp only: view_after_def st' prod.case)
  have rb': "readback_after be ctx desc slots (Suc k) = readback (swap a) (map (write_slot a w) sl)"
    by (simp only: readback_after_def st' prod.case)
  from assms(5) have "case pred of None \<Rightarrow> False | Some p \<Rightarrow> p (Suc k) (view (swap a) (map (write_slot a w) sl))"
    by (simp add: reports_def va')
  then have "dispatch_loop be ctx desc pred cancel k a sl (ev @ map Dispatch [0..<k])
          = Some ((ev @ map Dispatch [0..<k]) @ [Dispatch k, Enter Completed,
                   Handoff (readback (swap a) (map (write_slot a w) sl))])"
    using assms(2,4) w by (subst dispatch_loop.simps) (simp add: Let_def)
  with loop_advance[OF assms(1), of ev] show ?thesis by (simp add: st rb')
qed

lemma dispatch_loop_ends:
  assumes M: "maxIterations desc = Some M"
  shows "i \<le> M \<Longrightarrow> \<exists>out. dispatch_loop be ctx desc pred cancel i a slots events = Some out"
proof (induction "M - i" arbitrary: i a slots events)
  case 0
  then have "i = M" by simp
  with M show ?case by (subst dispatch_loop.simps) simp
next
  case (Suc n)
  then have lt: "i < M" by simp
  with M have ne: "maxIterations desc \<noteq> Some i" by simp
  have "n = M - Suc i" "Suc i \<le> M" using Suc.hyps(2) lt by simp_all
  note IH = Suc.hyps(1)[OF this]
  show ?case
  proof (cases "dispatch be i (workgroupSize ctx) (counts desc) (view a slots)")
    case (Inl err)
    with ne show ?thesis by (subst dispatch_loop.simps) simp
  next
    case (Inr w)
    from IH[of "swap a" "map (write_slot a w) slots" "events @ [Dispatch i]"]
    obtain out where "dispatch_loop be ctx desc pred cancel (Suc i) (swap a) (map (write_slot a w) slots)
        (events @ [Dispatch i]) = Some out" by blast
    with ne Inr show ?thesis by (subst dispatch_loop.simps) (simp add: Let_def)
  qed
qed

lemma run_loop:
  assumes "compileProgram be ctx = None" "resolve table ctx desc = Inr slots"
    "\<not> (maxIterations desc = None \<and> pred = None)"
  shows "run be ctx desc table pred cancel = dispatch_loop be ctx desc pred cancel 0 Front slots started"
  using assms by (auto simp: run_def started_def)



subsection \<open>The scenario kernel\<close>




subsection \<open>Sample runs\<close>

lemma resolve_example:
  "resolve example_table example_ctx (example_desc M) =
     Inr [(''u_Data'', PingPong [0, 0, 8, 1, 1, 1, 9, 1] [0, 0, 0, 0, 0, 0, 0, 0])]"
  by (simp add: resolve_def example_table_def example_ctx_def example_desc_def resolve_binding_def)

lemma run_example_1:
  "run example_backend example_ctx (example_desc 1) example_table None never =
     Some [Enter Idle, Enter Compiling, Enter Ready, Enter Running, Dispatch 0, Enter Completed,
           Handoff [(''u_Data'', [1, 0, 8, 1, 2, 1, 9, 1])]]"
  apply (simp add: run_def resolve_example example_backend_def)
  apply (subst dispatch_loop.simps)
  apply (simp add: example_desc_def view_def never_def)
  apply (subst dispatch_loop.simps)
  apply (simp add: readback_def)
  done





lemma handoff_facts:
  assumes r: "run be ctx desc table pred cancel = Some events"
  shows "length (handoffs events) = (if final_state events = Completed then 1 else 0) \<and>
         (final_state events = Completed \<longrightarrow>
            (\<exists>pre snap. events = pre @ [Enter Completed, Handoff snap] \<and>
                        final_state pre = Running \<and> handoffs pre = [])) \<and>
         ((\<exists>err. final_state events = Failed err) \<or> final_state events = Cancelled
            \<longrightarrow> handoffs events = []) \<and>
         (\<forall>err. Enter (Failed (BackendFailure err)) \<in> set events
            \<longrightarrow> final_state events = Failed (BackendFailure err) \<and> handoffs events = [])"
proof (cases "compileProgram be ctx")
  case (Some err)
  with r have "events = [Enter Idle, Enter Compiling, Enter (Failed (BackendFailure err))]"
    by (simp add: run_def)
  then show ?thesis by (simp add: final_state_def)
next
  case None
  show ?thesis
  proof (cases "resolve table ctx desc")
    case (Inl err)
    with None r have "events = [Enter Idle, Enter Compiling, Enter (Failed (BindingFailure err))]"
      by (simp add: run_def)
    then show ?thesis by (simp add: final_state_def)
  next
    case (Inr slots)
    show ?thesis
    proof (cases "maxIterations desc = None \<and> pred = None")
      case True
      with None Inr r have "events = [Enter Idle, Enter Compiling, Enter Ready,
                          Enter (Failed (SchedulerFailure NoTerminationCondition))]"
        by (simp add: run_def)
      then show ?thesis by (simp add: final_state_def)
    next
      case False
      let ?pre = "[Enter Idle, Enter Compiling, Enter Ready, Enter Running]"
      from None Inr False r have "dispatch_loop be ctx desc pred cancel 0 Front slots ?pre = Some events"
        by (auto simp: run_def)
      from dispatch_loop_shape[OF this] obtain ds t where
        e: "events = ?pre @ map Dispatch ds @ t" and t: "loop_exit t" by blast
      show ?thesis
        by (rule exit_facts[OF e t]) (simp_all add: final_state_def)
    qed
  qed
qed



text \<open>
  C7. In every run that ends, the completion handoff \<^verbatim>\<open>onCompleted\<close> is invoked once
  if the run ends in \<open>Completed\<close> and not at all otherwise; when it is invoked, it is the
  last thing that happens, right after \<open>Completed\<close> is entered from \<open>Running\<close>; a run
  that ends in \<open>Failed\<close> or \<open>Cancelled\<close> never invokes it. A run with an iteration bound
  ends, with or without a predicate. And for a run that compiles, resolves its bindings and
  arrives at iteration \<open>k\<close>: when the bound is \<open>k\<close>, it ends in \<open>Completed\<close> with one
  handoff; when dispatch \<open>k\<close> fails, it ends in \<open>Failed\<close> with that error and with no
  handoff, so the buffers of the iterations that did complete are handed to nobody; when a
  cancellation is requested, it ends in \<open>Cancelled\<close> with no handoff; when the predicate
  reports completion, it ends in \<open>Completed\<close> with one handoff.
\<close>

theorem onCompleted_once:
  "(\<forall>events. run be ctx desc table pred cancel = Some events \<longrightarrow>
      length (handoffs events) = (if final_state events = Completed then 1 else 0) \<and>
      (final_state events = Completed \<longrightarrow>
         (\<exists>pre snap. events = pre @ [Enter Completed, Handoff snap] \<and>
                     final_state pre = Running \<and> handoffs pre = [])) \<and>
      ((\<exists>err. final_state events = Failed err) \<or> final_state events = Cancelled
         \<longrightarrow> handoffs events = []) \<and>
      (\<forall>err. Enter (Failed (BackendFailure err)) \<in> set events
         \<longrightarrow> final_state events = Failed (BackendFailure err) \<and> handoffs events = [])) \<and>
   (\<forall>M. maxIterations desc = Some M \<longrightarrow>
      (\<exists>events. run be ctx desc table pred cancel = Some events)) \<and>
   (\<forall>slots k.
      compileProgram be ctx = None \<and> resolve table ctx desc = Inr slots \<and>
      \<not> (maxIterations desc = None \<and> pred = None) \<and>
      (\<forall>j<k. continues be ctx desc pred cancel slots j) \<longrightarrow>
      (maxIterations desc = Some k \<longrightarrow>
         run be ctx desc table pred cancel =
           Some (started @ map Dispatch [0..<k] @
                 [Enter Completed, Handoff (readback_after be ctx desc slots k)])) \<and>
      (maxIterations desc \<noteq> Some k \<longrightarrow>
         (\<forall>err. dispatch_result be ctx desc slots k = Inl err \<longrightarrow>
            run be ctx desc table pred cancel =
              Some (started @ map Dispatch [0..<Suc k] @ [Enter (Failed (BackendFailure err))])) \<and>
         (succeeds be ctx desc slots k \<and> cancel k \<longrightarrow>
            run be ctx desc table pred cancel =
              Some (started @ map Dispatch [0..<Suc k] @ [Enter Cancelled])) \<and>
         (succeeds be ctx desc slots k \<and> \<not> cancel k \<and>
          reports pred (Suc k) (view_after be ctx desc slots (Suc k)) \<longrightarrow>
            run be ctx desc table pred cancel =
              Some (started @ map Dispatch [0..<Suc k] @
                    [Enter Completed, Handoff (readback_after be ctx desc slots (Suc k))]))))"
proof -
  have ends: "\<exists>events. run be ctx desc table pred cancel = Some events"
    if M: "maxIterations desc = Some M" for M
  proof (cases "compileProgram be ctx")
    case (Some err)
    then show ?thesis by (simp add: run_def)
  next
    case None
    show ?thesis
    proof (cases "resolve table ctx desc")
      case (Inl err)
      with None show ?thesis by (simp add: run_def)
    next
      case (Inr slots)
      have "run be ctx desc table pred cancel = dispatch_loop be ctx desc pred cancel 0 Front slots started"
        using None Inr M by (intro run_loop) simp_all
      with dispatch_loop_ends[OF M, of 0 be ctx pred cancel Front slots started] show ?thesis by simp
    qed
  qed
  have exits: "(maxIterations desc = Some k \<longrightarrow>
         run be ctx desc table pred cancel =
           Some (started @ map Dispatch [0..<k] @
                 [Enter Completed, Handoff (readback_after be ctx desc slots k)])) \<and>
      (maxIterations desc \<noteq> Some k \<longrightarrow>
         (\<forall>err. dispatch_result be ctx desc slots k = Inl err \<longrightarrow>
            run be ctx desc table pred cancel =
              Some (started @ map Dispatch [0..<Suc k] @ [Enter (Failed (BackendFailure err))])) \<and>
         (succeeds be ctx desc slots k \<and> cancel k \<longrightarrow>
            run be ctx desc table pred cancel =
              Some (started @ map Dispatch [0..<Suc k] @ [Enter Cancelled])) \<and>
         (succeeds be ctx desc slots k \<and> \<not> cancel k \<and>
          reports pred (Suc k) (view_after be ctx desc slots (Suc k)) \<longrightarrow>
            run be ctx desc table pred cancel =
              Some (started @ map Dispatch [0..<Suc k] @
                    [Enter Completed, Handoff (readback_after be ctx desc slots (Suc k))])))"
    if c: "compileProgram be ctx = None" and r: "resolve table ctx desc = Inr slots"
      and t: "\<not> (maxIterations desc = None \<and> pred = None)"
      and reach: "\<forall>j<k. continues be ctx desc pred cancel slots j" for slots k
  proof -
    have rl: "run be ctx desc table pred cancel = dispatch_loop be ctx desc pred cancel 0 Front slots started"
      using c r t by (rule run_loop)
    show ?thesis
      using loop_exit_bound[OF reach, of started] loop_exit_error[OF reach, of _ started]
        loop_exit_cancel[OF reach, of started] loop_exit_reported[OF reach, of started]
      by (simp add: rl)
  qed
  from handoff_facts ends exits show ?thesis by blast
qed


theorem onCompleted_once_witness:
  "run example_backend example_ctx (example_desc 1) example_table None never =
     Some [Enter Idle, Enter Compiling, Enter Ready, Enter Running, Dispatch 0, Enter Completed,
           Handoff [(''u_Data'', [1, 0, 8, 1, 2, 1, 9, 1])]] \<and>
   final_state [Enter Idle, Enter Compiling, Enter Ready, Enter Running, Dispatch 0, Enter Completed,
           Handoff [(''u_Data'', [1, 0, 8, 1, 2, 1, 9, 1])]] = Completed \<and>
   length (handoffs [Enter Idle, Enter Compiling, Enter Ready, Enter Running, Dispatch 0,
           Enter Completed, Handoff [(''u_Data'', [1, 0, 8, 1, 2, 1, 9, 1])]]) = 1 \<and>
   dispatch_result failing_backend example_ctx (example_desc 1)
     [(''u_Data'', PingPong [0, 0, 8, 1, 1, 1, 9, 1] [0, 0, 0, 0, 0, 0, 0, 0])] 0 =
     Inl (BackendError ''device lost'') \<and>
   run failing_backend example_ctx (example_desc 1) example_table None never =
     Some [Enter Idle, Enter Compiling, Enter Ready, Enter Running, Dispatch 0,
           Enter (Failed (BackendFailure (BackendError ''device lost'')))] \<and>
   handoffs [Enter Idle, Enter Compiling, Enter Ready, Enter Running, Dispatch 0,
           Enter (Failed (BackendFailure (BackendError ''device lost'')))] = []"
proof -
  let ?slots = "[(''u_Data'', PingPong [0, 0, 8, 1, 1, 1, 9, 1] [0, 0, 0, 0, 0, 0, 0, 0])]"
  let ?done = "[Enter Idle, Enter Compiling, Enter Ready, Enter Running, Dispatch 0,
           Enter Completed, Handoff [(''u_Data'', [1, 0, 8, 1, 2, 1, 9, 1])]]"
  have f: "final_state ?done = Completed" by (simp add: final_state_def)
  from onCompleted_once [of example_backend example_ctx "example_desc 1" example_table None never]
    run_example_1
  have "length (handoffs ?done) = (if final_state ?done = Completed then 1 else 0)"
    by blast
  with f have a: "length (handoffs ?done) = 1" by simp
  have c: "compileProgram failing_backend example_ctx = None" by (simp add: failing_backend_def)
  have r: "resolve example_table example_ctx (example_desc 1) = Inr ?slots" by (rule resolve_example)
  have t: "\<not> (maxIterations (example_desc 1) = None \<and> (None :: predicate option) = None)"
    by (simp add: example_desc_def)
  have m: "maxIterations (example_desc 1) \<noteq> Some 0" by (simp add: example_desc_def)
  have p: "\<forall>j<0. continues failing_backend example_ctx (example_desc 1) None never ?slots j" by simp
  have d: "dispatch_result failing_backend example_ctx (example_desc 1) ?slots 0 =
             Inl (BackendError ''device lost'')"
    by (simp add: dispatch_result_def failing_backend_def)
  from onCompleted_once [of failing_backend example_ctx "example_desc 1" example_table None never]
    c r t p m d
  have b: "run failing_backend example_ctx (example_desc 1) example_table None never =
     Some (started @ map Dispatch [0..<Suc 0] @
           [Enter (Failed (BackendFailure (BackendError ''device lost'')))])"
    by blast
  from run_example_1 f a d b show ?thesis by (simp add: started_def)
qed



end
